theory Spec2Isabelle
  imports Main "HOL-Library.Word" "HOL-Library.Stream" "HOL-Library.Multiset"
begin

section \<open>Data model of \<^verbatim>\<open>allocation_strategy.h\<close>\<close>

text \<open>
  Byte counts (\<^verbatim>\<open>capacity()\<close>, \<^verbatim>\<open>size()\<close>, \<^verbatim>\<open>objectSize\<close>) are \<^verbatim>\<open>size_t\<close>,
  a 64-bit unsigned word. Container sizes, indices and the try counter are natural
  numbers; the one place where such a value can wrap (\<^verbatim>\<open>eligible.size() - 1\<close>) has
  its wrap-around written out in \<open>size_minus_one\<close>.
\<close>

type_synonym size_t = "64 word"

text \<open>
  A \<^verbatim>\<open>std::shared_ptr<BufferAllocator>\<close> is the identity of the allocator object it
  points to. The objects live in a store \<open>heap\<close>, so two map entries holding the same
  pointer share one object. Pointers in the map are taken to be non-null.
\<close>

type_synonym pool_ref = nat

text \<open>
  \<^verbatim>\<open>BufferAllocator\<close> is declared in \<^verbatim>\<open>allocator.h\<close>, which is not part of the
  sources at hand. The three member functions that \<^verbatim>\<open>Allocate\<close> uses are parameters
  of the model: \<open>'p\<close> is the state of one allocator object, \<open>'h\<close> the buffer a
  successful \<open>allocate\<close> hands out; \<open>None\<close> is the null \<^verbatim>\<open>unique_ptr\<close>.
  \<open>capacity\<close> and \<open>size\<close> only read the object, \<open>allocate\<close> returns its new state.
\<close>

record ('p, 'h) BufferAllocator =
  capacity :: "'p \<Rightarrow> size_t"
  size_used :: "'p \<Rightarrow> size_t"
  allocate :: "'p \<Rightarrow> size_t \<Rightarrow> 'h option \<times> 'p"

text \<open>
  The state one call of \<^verbatim>\<open>Allocate\<close> works on: the allocator objects, the private
  generator \<^verbatim>\<open>rng_\<close>, and two logs that the code does not have and that only record
  what it did: every \<open>allocate\<close> call with its outcome, and every random draw with the
  size of \<^verbatim>\<open>eligible\<close> at that moment.
\<close>

record ('p, 'h) world =
  heap :: "pool_ref \<Rightarrow> 'p"
  rng :: "nat stream"
  calls :: "(pool_ref \<times> 'h option) list"
  draws :: "(nat \<times> nat) list"

text \<open>
  The only operations of the code with a precondition are the accesses to the vector
  \<^verbatim>\<open>eligible\<close>; violating it is undefined behaviour, a value of its own here.
\<close>

datatype fault = VectorIndexOutOfRange

section \<open>The randomized strategy\<close>

text \<open>
  \<^verbatim>\<open>std::uniform_int_distribution<size_t> dist(a, b); dist(rng_)\<close> returns some value
  of \<open>[a, b]\<close> and advances the generator. The generator is the stream of the raw
  choices it will make: the result always lies in the interval
  (\<open>uniform_int_distribution_range\<close>), and every value of the interval is the result
  for some raw choice (\<open>uniform_int_distribution_onto\<close>), so a statement about all
  generators is a statement about all outcomes of the draws.
\<close>

definition uniform_int_distribution :: "nat \<Rightarrow> nat \<Rightarrow> nat stream \<Rightarrow> nat \<times> nat stream" where
  "uniform_int_distribution a b g = (a + shd g mod (b - a + 1), stl g)"

text \<open>\<^verbatim>\<open>eligible.size() - 1\<close> in \<^verbatim>\<open>size_t\<close>: on an empty vector it wraps to \<open>2^64 - 1\<close>.\<close>

definition size_minus_one :: "'a list \<Rightarrow> nat" where
  "size_minus_one v = (if length v = 0 then 2 ^ 64 - 1 else length v - 1)"

text \<open>\<^verbatim>\<open>eligible[randomIndex].swap(eligible.back())\<close>\<close>

definition swap_back :: "'a list \<Rightarrow> nat \<Rightarrow> 'a list" where
  "swap_back v i = v[i := last v, length v - 1 := v ! i]"

text \<open>
  Lines 52 to 61: the loop over the map that fills \<^verbatim>\<open>eligible\<close>. The map is the list
  of its entries in iteration order.
\<close>

fun collect_eligible ::
  "('p, 'h) BufferAllocator \<Rightarrow> (pool_ref \<Rightarrow> 'p) \<Rightarrow> size_t \<Rightarrow> (string \<times> pool_ref) list
    \<Rightarrow> pool_ref list \<Rightarrow> pool_ref list" where
  "collect_eligible ops h objectSize [] eligible = eligible"
| "collect_eligible ops h objectSize (kv # rest) eligible =
     (let allocator = snd kv;
          cap = capacity ops (h allocator);
          used = size_used ops (h allocator);
          available = (if cap > used then cap - used else 0)
      in collect_eligible ops h objectSize rest
           (if available \<ge> objectSize then eligible @ [allocator] else eligible))"

text \<open>Lines 72 to 87: the retry loop.\<close>

function retry_loop ::
  "('p, 'h) BufferAllocator \<Rightarrow> size_t \<Rightarrow> nat \<Rightarrow> nat \<Rightarrow> pool_ref list \<Rightarrow> ('p, 'h) world
    \<Rightarrow> fault + ('h option \<times> ('p, 'h) world)" where
  "retry_loop ops objectSize max_try try_count eligible w =
     (if try_count < max_try then
        (let (randomIndex, g) = uniform_int_distribution 0 (size_minus_one eligible) (rng w);
             w1 = w\<lparr>rng := g, draws := draws w @ [(length eligible, randomIndex)]\<rparr>
         in if randomIndex < length eligible then
              (let allocator = eligible ! randomIndex;
                   (bufHandle, p) = allocate ops (heap w1 allocator) objectSize;
                   w2 = w1\<lparr>heap := (heap w1)(allocator := p),
                           calls := calls w1 @ [(allocator, bufHandle)]\<rparr>
               in case bufHandle of
                    Some b \<Rightarrow> Inr (Some b, w2)
                  | None \<Rightarrow>
                      retry_loop ops objectSize max_try (try_count + 1)
                        (butlast (if randomIndex + 1 \<noteq> length eligible
                                  then swap_back eligible randomIndex else eligible))
                        w2)
            else Inl VectorIndexOutOfRange)
      else Inr (None, w))"
  by pat_completeness auto
termination
  by (relation "measure (\<lambda>(ops, objectSize, max_try, try_count, eligible, w). max_try - try_count)")
     auto

declare retry_loop.simps [simp del]

text \<open>Lines 40 to 88. The logs start empty with every call.\<close>

definition Allocate ::
  "('p, 'h) BufferAllocator \<Rightarrow> (pool_ref \<Rightarrow> 'p) \<Rightarrow> nat stream \<Rightarrow> (string \<times> pool_ref) list
    \<Rightarrow> size_t \<Rightarrow> fault + ('h option \<times> ('p, 'h) world)" where
  "Allocate ops h g allocators objectSize =
     (let w = \<lparr>heap = h, rng = g, calls = [], draws = []\<rparr>
      in if length allocators = 1 then
           (let allocator = snd (hd allocators);
                (bufHandle, p) = allocate ops (heap w allocator) objectSize
            in Inr (bufHandle, w\<lparr>heap := (heap w)(allocator := p),
                                 calls := calls w @ [(allocator, bufHandle)]\<rparr>))
         else
           (let eligible = collect_eligible ops h objectSize allocators []
            in if eligible = [] then Inr (None, w)
               else
                 (let max_try_limit = 10;
                      max_try = min max_try_limit (length eligible)
                  in retry_loop ops objectSize max_try 0 eligible w)))"

section \<open>Notions of the specification\<close>

text \<open>
  The pool's reported available space as the specification words it: capacity minus
  size, zero when size exceeds capacity (subtraction on \<open>nat\<close> stops at zero).
\<close>

definition clamped_available :: "('p, 'h) BufferAllocator \<Rightarrow> 'p \<Rightarrow> nat" where
  "clamped_available ops p = unat (capacity ops p) - unat (size_used ops p)"

text \<open>A pool is eligible when its clamped available space is at least the requested size.\<close>

definition is_eligible :: "('p, 'h) BufferAllocator \<Rightarrow> (pool_ref \<Rightarrow> 'p) \<Rightarrow> size_t \<Rightarrow> pool_ref \<Rightarrow> bool" where
  "is_eligible ops h objectSize a = (unat objectSize \<le> clamped_available ops (h a))"

text \<open>The eligible pools of a pool set, one per entry of the map, in iteration order.\<close>

definition eligible_pools ::
  "('p, 'h) BufferAllocator \<Rightarrow> (pool_ref \<Rightarrow> 'p) \<Rightarrow> (string \<times> pool_ref) list \<Rightarrow> size_t \<Rightarrow> pool_ref list" where
  "eligible_pools ops h allocators objectSize = filter (is_eligible ops h objectSize) (map snd allocators)"

section \<open>Auxiliary notions for the loop\<close>

text \<open>
  Names for the parts of one pass through the loop body, used to state its behaviour:
  the index drawn, the state after the \<open>allocate\<close> call, and the vector after the failed
  pool was swapped to the back and popped.
\<close>

definition draw_index :: "pool_ref list \<Rightarrow> ('p, 'h) world \<Rightarrow> nat" where
  "draw_index eligible w = shd (rng w) mod length eligible"

definition after_call :: "('p, 'h) BufferAllocator \<Rightarrow> size_t \<Rightarrow> pool_ref list \<Rightarrow> ('p, 'h) world \<Rightarrow> ('p, 'h) world" where
  "after_call ops objectSize eligible w =
     (let i = draw_index eligible w; a = eligible ! i; r = allocate ops (heap w a) objectSize
      in w\<lparr>rng := stl (rng w), draws := draws w @ [(length eligible, i)],
           heap := (heap w)(a := snd r), calls := calls w @ [(a, fst r)]\<rparr>)"

definition remove_at :: "'a list \<Rightarrow> nat \<Rightarrow> 'a list" where
  "remove_at v i = butlast (if i + 1 \<noteq> length v then swap_back v i else v)"

text \<open>
  What a run of the loop with \<open>k\<close> tries left adds to the logs: at most \<open>k\<close> calls, on
  members of \<open>eligible\<close> and no more often than they occur there, all failed but possibly
  the last, whose outcome is the result; a run that returns no buffer used all \<open>k\<close> tries;
  the vector shrinks by one element from draw to draw; every draw was made on a
  non-empty vector and lies inside it.
\<close>

definition loop_post ::
  "('p, 'h) world \<Rightarrow> nat \<Rightarrow> pool_ref list \<Rightarrow> 'h option \<Rightarrow> ('p, 'h) world \<Rightarrow> bool" where
  "loop_post w k eligible r w' =
     (\<exists>new dnew.
        calls w' = calls w @ new \<and> draws w' = draws w @ dnew \<and>
        length new \<le> k \<and> length dnew = length new \<and>
        map fst dnew = map (\<lambda>j. length eligible - j) [0..<length dnew] \<and>
        mset (map fst new) \<subseteq># mset eligible \<and>
        (\<forall>c \<in> set (butlast new). snd c = None) \<and>
        r = (if new = [] then None else snd (last new)) \<and>
        (r = None \<longrightarrow> length new = k) \<and>
        (\<forall>d \<in> set dnew. 1 \<le> fst d \<and> snd d < fst d))"

section \<open>A pool for concrete runs\<close>

text \<open>
  Modelled from the spec: the class \<^verbatim>\<open>BufferAllocator\<close> of \<^verbatim>\<open>allocator.h\<close> is missing.
  This stand-in follows sections 3 and 6 of the specification: a pool reports the bytes
  it manages and the bytes in use, its \<open>allocate\<close> can fail although the counters report
  enough room (fragmentation), and a success adds to the bytes in use. The buffer handed
  out is its length. It is used for concrete runs only; every general statement below
  holds for all implementations of the three member functions.
\<close>

record pool =
  total :: size_t
  in_use :: size_t
  fragmented :: bool

definition pool_allocate :: "pool \<Rightarrow> size_t \<Rightarrow> size_t option \<times> pool" where
  "pool_allocate p n =
     (if fragmented p \<or> total p < in_use p \<or> total p - in_use p < n then (None, p)
      else (Some n, p\<lparr>in_use := in_use p + n\<rparr>))"

definition test_allocator :: "(pool, size_t) BufferAllocator" where
  "test_allocator = \<lparr>capacity = total, size_used = in_use, allocate = pool_allocate\<rparr>"

text \<open>Scenario A of the specification: P1 has 10 bytes left, P2 has 100; 50 are requested.\<close>

definition scenarioA_pools :: "(string \<times> pool_ref) list" where
  "scenarioA_pools = [(''P1'', 0), (''P2'', 1)]"

definition scenarioA_heap :: "pool_ref \<Rightarrow> pool" where
  "scenarioA_heap a =
     (if a = 0 then \<lparr>total = 100, in_use = 90, fragmented = False\<rparr>
      else \<lparr>total = 100, in_use = 0, fragmented = False\<rparr>)"

text \<open>Scenario B: a single pool of capacity 10 with 10 bytes in use; 5 are requested.\<close>

definition scenarioB_pools :: "(string \<times> pool_ref) list" where
  "scenarioB_pools = [(''P1'', 0)]"

definition full_heap :: "pool_ref \<Rightarrow> pool" where
  "full_heap a = \<lparr>total = 10, in_use = 10, fragmented = False\<rparr>"

definition scenarioB_after :: "(pool, size_t) world" where
  "scenarioB_after = \<lparr>heap = full_heap, rng = sconst 0, calls = [(0, None)], draws = []\<rparr>"

text \<open>Two full pools.\<close>

definition two_pools :: "(string \<times> pool_ref) list" where
  "two_pools = [(''P1'', 0), (''P2'', 1)]"

text \<open>Scenario C: 15 pools with room for the request that all refuse it.\<close>

definition scenarioC_pools :: "(string \<times> pool_ref) list" where
  "scenarioC_pools =
     [(''P0'', 0), (''P1'', 1), (''P2'', 2), (''P3'', 3), (''P4'', 4),
      (''P5'', 5), (''P6'', 6), (''P7'', 7), (''P8'', 8), (''P9'', 9),
      (''P10'', 10), (''P11'', 11), (''P12'', 12), (''P13'', 13), (''P14'', 14)]"

definition fragmented_heap :: "pool_ref \<Rightarrow> pool" where
  "fragmented_heap a = \<lparr>total = 100, in_use = 0, fragmented = True\<rparr>"

text \<open>
  Scenario D: three pools with room, of which the first two refuse; the generator
  chooses index 0, then index 1, then index 0.
\<close>

definition scenarioD_pools :: "(string \<times> pool_ref) list" where
  "scenarioD_pools = [(''P1'', 0), (''P2'', 1), (''P3'', 2)]"

definition scenarioD_heap :: "pool_ref \<Rightarrow> pool" where
  "scenarioD_heap a = \<lparr>total = 100, in_use = 0, fragmented = (a \<noteq> 2)\<rparr>"

definition scenarioD_rng :: "nat stream" where
  "scenarioD_rng = 0 ## 1 ## sconst 0"

text \<open>
  A map that binds two names to one allocator object: A and B both hold the pointer to
  pool 0, C holds pool 1; both pools have room and refuse. The state after the call.
\<close>

definition alias_pools :: "(string \<times> pool_ref) list" where
  "alias_pools = [(''A'', 0), (''B'', 0), (''C'', 1)]"

definition alias_after :: "(pool, size_t) world" where
  "alias_after = \<lparr>heap = fragmented_heap, rng = sconst 0,
                   calls = [(0, None), (1, None), (0, None)],
                   draws = [(3, 0), (2, 0), (1, 0)]\<rparr>"

section \<open>Properties of the parts\<close>

lemma uniform_int_distribution_range:
  assumes "a \<le> b"
  shows "a \<le> fst (uniform_int_distribution a b g) \<and> fst (uniform_int_distribution a b g) \<le> b"
proof -
  have "shd g mod Suc (b - a) < Suc (b - a)"
    by (rule mod_less_divisor) simp
  then have "shd g mod Suc (b - a) \<le> b - a"
    by (simp only: less_Suc_eq_le)
  with assms have "a + shd g mod Suc (b - a) \<le> b"
    by linarith
  then show ?thesis by (simp add: uniform_int_distribution_def)
qed

lemma uniform_int_distribution_onto:
  "a \<le> i \<Longrightarrow> i \<le> b \<Longrightarrow> fst (uniform_int_distribution a b ((i - a) ## g)) = i"
  by (simp add: uniform_int_distribution_def)

lemma available_clamped:
  fixes cap used objectSize :: size_t
  shows "((if cap > used then cap - used else 0) \<ge> objectSize) = (unat objectSize \<le> unat cap - unat used)"
  by (auto simp: word_le_nat_alt word_less_nat_alt unat_sub)

lemma collect_eligible_filter:
  "collect_eligible ops h objectSize kvs acc = acc @ eligible_pools ops h kvs objectSize"
  by (induction kvs arbitrary: acc)
     (simp_all add: eligible_pools_def is_eligible_def clamped_available_def Let_def available_clamped)

lemma retry_loop_done:
  "\<not> try_count < max_try \<Longrightarrow> retry_loop ops objectSize max_try try_count eligible w = Inr (None, w)"
  by (subst retry_loop.simps) simp

lemma retry_loop_empty:
  "try_count < max_try \<Longrightarrow> retry_loop ops objectSize max_try try_count [] w = Inl VectorIndexOutOfRange"
  by (subst retry_loop.simps) (simp add: uniform_int_distribution_def size_minus_one_def)

lemma dist_in_range:
  "eligible \<noteq> [] \<Longrightarrow>
   uniform_int_distribution 0 (size_minus_one eligible) g = (shd g mod length eligible, stl g)"
  by (simp add: uniform_int_distribution_def size_minus_one_def)

lemma retry_loop_step:
  assumes "try_count < max_try" "eligible \<noteq> []"
  shows "retry_loop ops objectSize max_try try_count eligible w =
    (case fst (allocate ops (heap w (eligible ! draw_index eligible w)) objectSize) of
       Some b \<Rightarrow> Inr (Some b, after_call ops objectSize eligible w)
     | None \<Rightarrow> retry_loop ops objectSize max_try (try_count + 1)
                 (remove_at eligible (draw_index eligible w)) (after_call ops objectSize eligible w))"
proof -
  have lt: "shd (rng w) mod length eligible < length eligible"
    using assms(2) by simp
  show ?thesis
    apply (subst retry_loop.simps)
    apply (simp only: assms(1) if_True dist_in_range [OF assms(2)] Let_def case_prod_conv lt)
    apply (simp add: draw_index_def after_call_def remove_at_def Let_def case_prod_beta
                split: option.split)
    done
qed

lemma length_remove_at: "i < length v \<Longrightarrow> length (remove_at v i) = length v - 1"
  by (simp add: remove_at_def swap_back_def)

lemma mset_remove_at: "i < length v \<Longrightarrow> add_mset (v ! i) (mset (remove_at v i)) = mset v"
proof -
  assume i: "i < length v"
  then have ne: "v \<noteq> []" by auto
  define s where "s = (if i + 1 \<noteq> length v then swap_back v i else v)"
  have ms: "mset s = mset v"
    using i ne by (simp add: s_def swap_back_def last_conv_nth mset_swap)
  have la: "last s = v ! i"
  proof (cases "i + 1 = length v")
    case True
    then have "length v - 1 = i" by simp
    with True ne show ?thesis by (simp add: s_def last_conv_nth)
  next
    case False
    with i ne show ?thesis by (simp add: s_def swap_back_def last_conv_nth)
  qed
  have "s \<noteq> []" using ne by (simp add: s_def swap_back_def)
  then have "butlast s @ [last s] = s" by simp
  then have "mset (butlast s @ [last s]) = mset s" by simp
  then have "add_mset (last s) (mset (butlast s)) = mset s" by simp
  then show ?thesis using la ms by (simp add: remove_at_def s_def)
qed

lemma distinct_mset_subseteq:
  assumes "mset xs \<subseteq># mset ys" "distinct ys"
  shows "distinct xs"
proof -
  from assms(1) obtain C where "mset ys = mset xs + C"
    by (auto simp: mset_subset_eq_exists_conv)
  moreover obtain zs where "C = mset zs"
    using ex_mset [of C] by auto
  ultimately have "mset ys = mset (xs @ zs)" by simp
  with assms(2) have "distinct (xs @ zs)"
    using mset_eq_imp_distinct_iff by blast
  then show ?thesis by simp
qed

lemma loop_post_done: "loop_post w 0 eligible None w"
  by (simp add: loop_post_def)

lemma loop_post_success:
  assumes "i < length eligible" "0 < k"
    and "calls w1 = calls w @ [(eligible ! i, Some b)]"
    and "draws w1 = draws w @ [(length eligible, i)]"
  shows "loop_post w k eligible (Some b) w1"
  unfolding loop_post_def
proof (intro exI [of _ "[(eligible ! i, Some b)]"] exI [of _ "[(length eligible, i)]"] conjI)
  show "mset (map fst [(eligible ! i, Some b)]) \<subseteq># mset eligible"
    using assms(1) by simp
qed (use assms in simp_all)

lemma loop_post_fail:
  assumes i: "i < length eligible"
    and c: "calls w1 = calls w @ [(eligible ! i, None)]"
    and d: "draws w1 = draws w @ [(length eligible, i)]"
    and post: "loop_post w1 k (remove_at eligible i) r w'"
  shows "loop_post w (Suc k) eligible r w'"
proof -
  from post obtain new dnew where
    cs: "calls w' = calls w1 @ new" and ds: "draws w' = draws w1 @ dnew"
    and len: "length new \<le> k" and same: "length dnew = length new"
    and sz: "map fst dnew = map (\<lambda>j. length (remove_at eligible i) - j) [0..<length dnew]"
    and sub: "mset (map fst new) \<subseteq># mset (remove_at eligible i)"
    and fails: "\<forall>c \<in> set (butlast new). snd c = None"
    and res: "r = (if new = [] then None else snd (last new))"
    and used: "r = None \<longrightarrow> length new = k"
    and inb: "\<forall>d \<in> set dnew. 1 \<le> fst d \<and> snd d < fst d"
    unfolding loop_post_def by (elim exE conjE) (rule that, assumption+)
  let ?new = "(eligible ! i, None) # new"
  let ?dnew = "(length eligible, i) # dnew"
  have sizes: "map fst ?dnew = map (\<lambda>j. length eligible - j) [0..<length ?dnew]"
  proof -
    have "[0..<length ?dnew] = 0 # map Suc [0..<length dnew]"
      by (simp add: upt_conv_Cons map_Suc_upt del: upt_Suc)
    then have "map (\<lambda>j. length eligible - j) [0..<length ?dnew] =
                 length eligible # map (\<lambda>j. length eligible - Suc j) [0..<length dnew]"
      by (simp add: comp_def del: upt_Suc)
    also have "map (\<lambda>j. length eligible - Suc j) [0..<length dnew] = map fst dnew"
      using sz by (simp add: length_remove_at [OF i])
    finally show ?thesis by simp
  qed
  have sub': "mset (map fst ?new) \<subseteq># mset eligible"
  proof -
    have "add_mset (eligible ! i) (mset (map fst new))
            \<subseteq># add_mset (eligible ! i) (mset (remove_at eligible i))"
      using sub by simp
    then show ?thesis
      using mset_remove_at [OF i] by simp
  qed
  have fails': "\<forall>c \<in> set (butlast ?new). snd c = None"
    using fails by (cases new) auto
  have res': "r = (if ?new = [] then None else snd (last ?new))"
    using res by (cases new) auto
  show ?thesis
    unfolding loop_post_def
  proof (intro exI [of _ ?new] exI [of _ ?dnew] conjI)
    show "calls w' = calls w @ ?new" using cs c by simp
    show "draws w' = draws w @ ?dnew" using ds d by simp
    show "length ?new \<le> Suc k" using len by simp
    show "length ?dnew = length ?new" using same by simp
    show "map fst ?dnew = map (\<lambda>j. length eligible - j) [0..<length ?dnew]" by (rule sizes)
    show "mset (map fst ?new) \<subseteq># mset eligible" by (rule sub')
    show "\<forall>c \<in> set (butlast ?new). snd c = None" by (rule fails')
    show "r = (if ?new = [] then None else snd (last ?new))" by (rule res')
    show "r = None \<longrightarrow> length ?new = Suc k" using used by simp
    show "\<forall>d \<in> set ?dnew. 1 \<le> fst d \<and> snd d < fst d" using inb i by simp
  qed
qed

lemma draw_index_less: "eligible \<noteq> [] \<Longrightarrow> draw_index eligible w < length eligible"
  by (simp add: draw_index_def)

lemma calls_after_call:
  "calls (after_call ops objectSize eligible w) =
     calls w @ [(eligible ! draw_index eligible w,
                 fst (allocate ops (heap w (eligible ! draw_index eligible w)) objectSize))]"
  by (simp add: after_call_def Let_def)

lemma draws_after_call:
  "draws (after_call ops objectSize eligible w) =
     draws w @ [(length eligible, draw_index eligible w)]"
  by (simp add: after_call_def Let_def)

lemma retry_loop_post:
  "max_try \<le> try_count + length eligible \<Longrightarrow>
   \<exists>r w'. retry_loop ops objectSize max_try try_count eligible w = Inr (r, w') \<and>
          loop_post w (max_try - try_count) eligible r w'"
proof (induction "max_try - try_count" arbitrary: try_count eligible w)
  case 0
  then have "\<not> try_count < max_try" by simp
  then show ?case
    using 0 by (simp add: retry_loop_done loop_post_done)
next
  case (Suc k)
  then have lt: "try_count < max_try" by simp
  with Suc.prems have ne: "eligible \<noteq> []" by auto
  let ?i = "draw_index eligible w"
  let ?w1 = "after_call ops objectSize eligible w"
  have i: "?i < length eligible" by (rule draw_index_less [OF ne])
  have k: "max_try - try_count = Suc k" using Suc.hyps(2) by simp
  show ?case
  proof (cases "fst (allocate ops (heap w (eligible ! ?i)) objectSize)")
    case (Some b)
    have "loop_post w (Suc k) eligible (Some b) ?w1"
      by (rule loop_post_success [OF i]) (simp_all add: calls_after_call draws_after_call Some)
    then show ?thesis
      by (simp add: retry_loop_step [OF lt ne] Some k)
  next
    case None
    have "k = max_try - (try_count + 1)" using k by simp
    moreover have "max_try \<le> (try_count + 1) + length (remove_at eligible ?i)"
      using Suc.prems ne by (simp add: length_remove_at [OF i])
    ultimately obtain r w' where
      run: "retry_loop ops objectSize max_try (try_count + 1) (remove_at eligible ?i) ?w1 = Inr (r, w')"
      and post: "loop_post ?w1 (max_try - (try_count + 1)) (remove_at eligible ?i) r w'"
      using Suc.hyps(1) by blast
    have "max_try - (try_count + 1) = k" using k by simp
    with post have "loop_post ?w1 k (remove_at eligible ?i) r w'" by simp
    then have "loop_post w (Suc k) eligible r w'"
      by (rule loop_post_fail [OF i, rotated 2]) (simp_all add: calls_after_call draws_after_call None)
    then show ?thesis
      using run by (simp add: retry_loop_step [OF lt ne] None k)
  qed
qed

lemma Allocate_single:
  "Allocate ops h g [(name, a)] objectSize =
     Inr (fst (allocate ops (h a) objectSize),
          \<lparr>heap = h(a := snd (allocate ops (h a) objectSize)), rng = g,
           calls = [(a, fst (allocate ops (h a) objectSize))], draws = []\<rparr>)"
  by (simp add: Allocate_def case_prod_beta)

lemma Allocate_multi:
  "length allocators \<noteq> 1 \<Longrightarrow>
   Allocate ops h g allocators objectSize =
     retry_loop ops objectSize (min 10 (length (eligible_pools ops h allocators objectSize))) 0
       (eligible_pools ops h allocators objectSize) \<lparr>heap = h, rng = g, calls = [], draws = []\<rparr>"
  using collect_eligible_filter [of ops h objectSize allocators "[]"]
  by (simp add: Allocate_def Let_def retry_loop_done)

lemma Allocate_multi_post:
  assumes "length allocators \<noteq> 1"
  shows "\<exists>r w'. Allocate ops h g allocators objectSize = Inr (r, w') \<and>
           loop_post \<lparr>heap = h, rng = g, calls = [], draws = []\<rparr>
             (min 10 (length (eligible_pools ops h allocators objectSize)))
             (eligible_pools ops h allocators objectSize) r w'"
  using retry_loop_post [of "min 10 (length (eligible_pools ops h allocators objectSize))" 0
          "eligible_pools ops h allocators objectSize" ops objectSize
          "\<lparr>heap = h, rng = g, calls = [], draws = []\<rparr>"]
  by (simp add: Allocate_multi [OF assms])

lemma single_entry: "length allocators = 1 \<Longrightarrow> \<exists>name a. allocators = [(name, a)]"
  by (cases allocators) auto

lemma Allocate_outcome:
  "\<exists>r w'. Allocate ops h g allocators objectSize = Inr (r, w') \<and>
     (\<forall>c \<in> set (butlast (calls w')). snd c = None) \<and>
     r = (if calls w' = [] then None else snd (last (calls w')))"
proof (cases "length allocators = 1")
  case True
  then obtain name a where "allocators = [(name, a)]"
    using single_entry by blast
  then show ?thesis by (simp add: Allocate_single)
next
  case False
  from Allocate_multi_post [OF False, of ops h g objectSize]
  obtain r w' where run: "Allocate ops h g allocators objectSize = Inr (r, w')"
    and post: "loop_post \<lparr>heap = h, rng = g, calls = [], draws = []\<rparr>
             (min 10 (length (eligible_pools ops h allocators objectSize)))
             (eligible_pools ops h allocators objectSize) r w'"
    by blast
  from post have "(\<forall>c \<in> set (butlast (calls w')). snd c = None) \<and>
     r = (if calls w' = [] then None else snd (last (calls w')))"
    unfolding loop_post_def by (elim exE conjE) simp
  with run show ?thesis by simp
qed

section \<open>Concrete runs\<close>

text \<open>The rewrite rules that run the loop on a concrete input.\<close>

lemmas run_simps = retry_loop_step retry_loop_done draw_index_def after_call_def remove_at_def swap_back_def
   test_allocator_def pool_allocate_def Let_def

lemma scenarioA_eligible:
  "eligible_pools test_allocator scenarioA_heap scenarioA_pools 50 = [1]"
  by (simp add: eligible_pools_def is_eligible_def clamped_available_def test_allocator_def
        scenarioA_heap_def scenarioA_pools_def)

lemma scenarioB_eligible:
  "eligible_pools test_allocator full_heap scenarioB_pools 5 = []"
  by (simp add: eligible_pools_def is_eligible_def clamped_available_def test_allocator_def
        full_heap_def scenarioB_pools_def)

lemma scenarioB_run:
  "Allocate test_allocator full_heap (sconst 0) scenarioB_pools 5 = Inr (None, scenarioB_after)"
  by (simp add: Allocate_single scenarioB_pools_def scenarioB_after_def test_allocator_def
        pool_allocate_def full_heap_def fun_upd_idem)

lemma scenarioC_eligible:
  "eligible_pools test_allocator fragmented_heap scenarioC_pools 50 = map snd scenarioC_pools"
  by (simp add: eligible_pools_def is_eligible_def clamped_available_def test_allocator_def
        fragmented_heap_def scenarioC_pools_def)

lemma scenarioC_run:
  "\<exists>w. Allocate test_allocator fragmented_heap (sconst 0) scenarioC_pools 50 = Inr (None, w) \<and>
       calls w = [(0, None), (14, None), (13, None), (12, None), (11, None),
                  (10, None), (9, None), (8, None), (7, None), (6, None)]"
  by (simp add: Allocate_multi eligible_pools_def is_eligible_def clamped_available_def
        scenarioC_pools_def fragmented_heap_def run_simps)

lemma scenarioD_run:
  "\<exists>w. Allocate test_allocator scenarioD_heap scenarioD_rng scenarioD_pools 50 = Inr (Some 50, w) \<and>
       calls w = [(0, None), (1, None), (2, Some 50)] \<and> draws w = [(3, 0), (2, 1), (1, 0)]"
  by (simp add: Allocate_multi eligible_pools_def is_eligible_def clamped_available_def
        scenarioD_heap_def scenarioD_rng_def scenarioD_pools_def run_simps)

lemma scenarioD_loop:
  "\<exists>w'. retry_loop test_allocator 50 (min 10 (length [0, 1, 2 :: pool_ref])) 0 [0, 1, 2]
           \<lparr>heap = scenarioD_heap, rng = scenarioD_rng, calls = [], draws = []\<rparr> = Inr (Some 50, w') \<and>
         draws w' = [(3, 0), (2, 1), (1, 0)]"
  by (simp add: scenarioD_heap_def scenarioD_rng_def run_simps)

lemma alias_run:
  "Allocate test_allocator fragmented_heap (sconst 0) alias_pools 50 = Inr (None, alias_after)"
  by (simp add: Allocate_multi eligible_pools_def is_eligible_def clamped_available_def
        alias_pools_def alias_after_def fragmented_heap_def fun_upd_idem run_simps)

section \<open>The claims\<close>

subsection \<open>C1: the retry bound\<close>

text \<open>
  C1 as stated fails on the single-pool fast path: in Scenario B the only pool has no
  room for 5 bytes, so no pool is eligible, and yet its \<open>allocate\<close> is called once.
\<close>

theorem retry_bound_counterexample:
  "Allocate test_allocator full_heap (sconst 0) scenarioB_pools 5 = Inr (None, scenarioB_after) \<and>
   eligible_pools test_allocator full_heap scenarioB_pools 5 = [] \<and>
   \<not> length (calls scenarioB_after)
       \<le> min 10 (length (eligible_pools test_allocator full_heap scenarioB_pools 5))"
  by (simp add: scenarioB_run scenarioB_eligible) (simp add: scenarioB_after_def)

text \<open>
  C1, amended: for every pool set and every requested size, one call of \<open>Allocate\<close>
  makes at most \<open>min 10 n\<close> calls of \<open>allocate\<close>, where \<open>n\<close> is the number of eligible
  pools (those whose clamped available space is at least the requested size), except on
  a pool set of exactly one pool, where it makes exactly one call.
\<close>

theorem retry_bound:
  "\<exists>r w'. Allocate ops h g allocators objectSize = Inr (r, w') \<and>
     (if length allocators = 1 then length (calls w') = 1
      else length (calls w') \<le> min 10 (length (eligible_pools ops h allocators objectSize)))"
proof (cases "length allocators = 1")
  case True
  then obtain name a where "allocators = [(name, a)]"
    using single_entry by blast
  then show ?thesis by (simp add: Allocate_single)
next
  case False
  from Allocate_multi_post [OF False, of ops h g objectSize]
  obtain r w' where run: "Allocate ops h g allocators objectSize = Inr (r, w')"
    and post: "loop_post \<lparr>heap = h, rng = g, calls = [], draws = []\<rparr>
             (min 10 (length (eligible_pools ops h allocators objectSize)))
             (eligible_pools ops h allocators objectSize) r w'"
    by blast
  from post have "length (calls w') \<le> min 10 (length (eligible_pools ops h allocators objectSize))"
    unfolding loop_post_def by (elim exE conjE) simp
  with run False show ?thesis by simp
qed

text \<open>
  Scenario A has two pools, one of them eligible, and at most one call is made.
  Scenario B has one pool, and one call is made.
\<close>

theorem retry_bound_witness:
  "length scenarioA_pools \<noteq> 1 \<and>
   (\<exists>r w'. Allocate test_allocator scenarioA_heap (sconst 0) scenarioA_pools 50 = Inr (r, w') \<and>
            length (calls w') \<le> min 10 (length [1::pool_ref])) \<and>
   length scenarioB_pools = 1 \<and> length (calls scenarioB_after) = 1"
proof -
  have 1: "length scenarioA_pools \<noteq> 1" by (simp add: scenarioA_pools_def)
  from retry_bound [of test_allocator scenarioA_heap "sconst 0" scenarioA_pools 50] 1
  have A: "\<exists>r w'. Allocate test_allocator scenarioA_heap (sconst 0) scenarioA_pools 50 = Inr (r, w') \<and>
            length (calls w') \<le> min 10 (length [1::pool_ref])"
    by (simp add: scenarioA_eligible)
  have 2: "length scenarioB_pools = 1" by (simp add: scenarioB_pools_def)
  from retry_bound [of test_allocator full_heap "sconst 0" scenarioB_pools 5] 2
  have B: "length (calls scenarioB_after) = 1"
    by (simp add: scenarioB_run)
  from 1 A 2 B show ?thesis by blast
qed

subsection \<open>C2: eligibility\<close>

text \<open>
  C2 as stated fails on the single-pool fast path: in Scenario B the pool P1 has clamped
  available space 0, less than the 5 bytes requested, and its \<open>allocate\<close> is called.
\<close>

theorem ineligible_attempted_counterexample:
  "Allocate test_allocator full_heap (sconst 0) scenarioB_pools 5 = Inr (None, scenarioB_after) \<and>
   (''P1'', 0) \<in> set scenarioB_pools \<and>
   clamped_available test_allocator (full_heap 0) < unat (5 :: size_t) \<and>
   0 \<in> fst ` set (calls scenarioB_after)"
  by (simp add: scenarioB_run)
     (simp add: scenarioB_after_def scenarioB_pools_def clamped_available_def test_allocator_def
        full_heap_def)

text \<open>
  C2, amended: for every pool set and every requested size, a pool whose clamped
  available space is less than the requested size is never attempted, unless it is the
  only pool of the pool set.
\<close>

theorem ineligible_never_attempted:
  assumes "clamped_available ops (h a) < unat objectSize"
  shows "\<exists>r w'. Allocate ops h g allocators objectSize = Inr (r, w') \<and>
           (a \<in> fst ` set (calls w') \<longrightarrow> (\<exists>name. allocators = [(name, a)]))"
proof (cases "length allocators = 1")
  case True
  then obtain name a' where "allocators = [(name, a')]"
    using single_entry by blast
  then show ?thesis by (simp add: Allocate_single)
next
  case False
  from Allocate_multi_post [OF False, of ops h g objectSize]
  obtain r w' where run: "Allocate ops h g allocators objectSize = Inr (r, w')"
    and post: "loop_post \<lparr>heap = h, rng = g, calls = [], draws = []\<rparr>
             (min 10 (length (eligible_pools ops h allocators objectSize)))
             (eligible_pools ops h allocators objectSize) r w'"
    by blast
  from post have "mset (map fst (calls w')) \<subseteq># mset (eligible_pools ops h allocators objectSize)"
    unfolding loop_post_def by (elim exE conjE) simp
  then have "set (map fst (calls w')) \<subseteq> set (eligible_pools ops h allocators objectSize)"
    using set_mset_mono by fastforce
  moreover have "a \<notin> set (eligible_pools ops h allocators objectSize)"
    using assms by (simp add: eligible_pools_def is_eligible_def)
  ultimately have "a \<notin> fst ` set (calls w')" by auto
  with run show ?thesis by simp
qed

text \<open>
  In Scenario A the pool P1 has 10 bytes left, 50 are requested, and P1 is not attempted.
  In Scenario B the pool without room is attempted, and it is the only pool of the set.
\<close>

theorem ineligible_never_attempted_witness:
  "clamped_available test_allocator (scenarioA_heap 0) < unat (50 :: size_t) \<and>
   (\<exists>r w'. Allocate test_allocator scenarioA_heap (sconst 0) scenarioA_pools 50 = Inr (r, w') \<and>
            0 \<notin> fst ` set (calls w')) \<and>
   clamped_available test_allocator (full_heap 0) < unat (5 :: size_t) \<and>
   0 \<in> fst ` set (calls scenarioB_after) \<and>
   (\<exists>name. scenarioB_pools = [(name, 0)])"
proof -
  have 1: "clamped_available test_allocator (scenarioA_heap 0) < unat (50 :: size_t)"
    by (simp add: clamped_available_def test_allocator_def scenarioA_heap_def)
  have 2: "\<not> (\<exists>name. scenarioA_pools = [(name, 0)])"
    by (simp add: scenarioA_pools_def)
  from ineligible_never_attempted
          [of test_allocator scenarioA_heap 0 50 "sconst 0" scenarioA_pools, OF 1] 2
  have A: "\<exists>r w'. Allocate test_allocator scenarioA_heap (sconst 0) scenarioA_pools 50 = Inr (r, w') \<and>
            0 \<notin> fst ` set (calls w')"
    by blast
  have 3: "clamped_available test_allocator (full_heap 0) < unat (5 :: size_t)"
    by (simp add: clamped_available_def test_allocator_def full_heap_def)
  have 4: "0 \<in> fst ` set (calls scenarioB_after)"
    by (simp add: scenarioB_after_def)
  from ineligible_never_attempted
          [of test_allocator full_heap 0 5 "sconst 0" scenarioB_pools, OF 3] 4
  have B: "\<exists>name. scenarioB_pools = [(name, 0)]"
    by (simp add: scenarioB_run)
  from 1 A 3 4 B show ?thesis by blast
qed

subsection \<open>C3: the single-pool fast path\<close>

text \<open>
  C3: on a pool set of exactly one pool, \<open>Allocate\<close> calls the \<open>allocate\<close> of that pool
  exactly once, whatever capacity and usage the pool reports, and returns what that call
  returns; no random number is drawn and nothing else is called, so a failure of the
  call is the result "no handle".
\<close>

theorem single_pool_fast_path:
  "Allocate ops h g [(name, a)] objectSize =
     Inr (fst (allocate ops (h a) objectSize),
          \<lparr>heap = h(a := snd (allocate ops (h a) objectSize)), rng = g,
           calls = [(a, fst (allocate ops (h a) objectSize))], draws = []\<rparr>)"
  by (simp add: Allocate_def case_prod_beta)

subsection \<open>C4: no eligible pool\<close>

text \<open>
  C4: on a pool set whose number of pools is not one, if the clamped available space of
  every pool is less than the requested size, \<open>Allocate\<close> returns no handle, and it has
  called no \<open>allocate\<close> and left pools and generator as they were.
\<close>

theorem no_eligible_pool:
  assumes "length allocators \<noteq> 1"
    and "\<forall>kv \<in> set allocators. clamped_available ops (h (snd kv)) < unat objectSize"
  shows "Allocate ops h g allocators objectSize =
           Inr (None, \<lparr>heap = h, rng = g, calls = [], draws = []\<rparr>)"
proof -
  have "eligible_pools ops h allocators objectSize = []"
    using assms(2) by (auto simp: eligible_pools_def is_eligible_def filter_empty_conv)
  then show ?thesis
    by (simp add: Allocate_multi [OF assms(1)] retry_loop_done)
qed

text \<open>
  Two pools of capacity 10 with 10 bytes in use, and a request of 5 bytes.
\<close>

theorem no_eligible_pool_witness:
  "length two_pools \<noteq> 1 \<and>
   clamped_available test_allocator (full_heap 0) < unat (5 :: size_t) \<and>
   clamped_available test_allocator (full_heap 1) < unat (5 :: size_t) \<and>
   Allocate test_allocator full_heap (sconst 0) two_pools 5 =
     Inr (None, \<lparr>heap = full_heap, rng = sconst 0, calls = [], draws = []\<rparr>)"
proof -
  have 1: "length two_pools \<noteq> 1" by (simp add: two_pools_def)
  have 2: "\<forall>kv \<in> set two_pools.
             clamped_available test_allocator (full_heap (snd kv)) < unat (5 :: size_t)"
    by (simp add: two_pools_def clamped_available_def test_allocator_def full_heap_def)
  from no_eligible_pool [OF 1 2] 1 2 show ?thesis by (simp add: two_pools_def)
qed

subsection \<open>C5: first success wins\<close>

text \<open>
  C5: in the log of one call of \<open>Allocate\<close>, an \<open>allocate\<close> call that returned a handle is
  the last call, and its handle is the result of \<open>Allocate\<close>.
\<close>

theorem first_success_wins:
  "\<exists>r w'. Allocate ops h g allocators objectSize = Inr (r, w') \<and>
     (\<forall>pre a b post. calls w' = pre @ (a, Some b) # post \<longrightarrow> post = [] \<and> r = Some b)"
proof -
  from Allocate_outcome [of ops h g allocators objectSize]
  obtain r w' where run: "Allocate ops h g allocators objectSize = Inr (r, w')"
    and fails: "\<forall>c \<in> set (butlast (calls w')). snd c = None"
    and res: "r = (if calls w' = [] then None else snd (last (calls w')))"
    by blast
  have "post = [] \<and> r = Some b" if eq: "calls w' = pre @ (a, Some b) # post" for pre a b post
  proof -
    have "post = []"
    proof (rule ccontr)
      assume "post \<noteq> []"
      then have "butlast (calls w') = pre @ (a, Some b) # butlast post"
        using eq by (simp add: butlast_append)
      then have "(a, Some b) \<in> set (butlast (calls w'))" by simp
      with fails show False by fastforce
    qed
    with eq res show ?thesis by simp
  qed
  with run show ?thesis by blast
qed

text \<open>
  In Scenario D the third call succeeds, after two failures.
\<close>

theorem first_success_wins_witness:
  "\<exists>w'. Allocate test_allocator scenarioD_heap scenarioD_rng scenarioD_pools 50 = Inr (Some 50, w') \<and>
         calls w' = [(0, None), (1, None)] @ (2, Some 50) # []"
  using first_success_wins [of test_allocator scenarioD_heap scenarioD_rng scenarioD_pools 50]
    scenarioD_run
  by auto

subsection \<open>C6: exhaustion after retries\<close>

text \<open>
  C6: if every \<open>allocate\<close> call made in one call of \<open>Allocate\<close> failed, the result is no
  handle.
\<close>

theorem all_fail_no_handle:
  "\<exists>r w'. Allocate ops h g allocators objectSize = Inr (r, w') \<and>
     ((\<forall>c \<in> set (calls w'). snd c = None) \<longrightarrow> r = None)"
proof -
  from Allocate_outcome [of ops h g allocators objectSize]
  obtain r w' where run: "Allocate ops h g allocators objectSize = Inr (r, w')"
    and res: "r = (if calls w' = [] then None else snd (last (calls w')))"
    by blast
  have "r = None" if "\<forall>c \<in> set (calls w'). snd c = None"
  proof (cases "calls w' = []")
    case True
    with res show ?thesis by simp
  next
    case False
    then have "last (calls w') \<in> set (calls w')" by simp
    with that have "snd (last (calls w')) = None" by blast
    with res False show ?thesis by simp
  qed
  with run show ?thesis by blast
qed

text \<open>
  In Scenario C all ten calls fail.
\<close>

theorem all_fail_no_handle_witness:
  "\<exists>w'. Allocate test_allocator fragmented_heap (sconst 0) scenarioC_pools 50 = Inr (None, w') \<and>
         calls w' = [(0, None), (14, None), (13, None), (12, None), (11, None),
                     (10, None), (9, None), (8, None), (7, None), (6, None)]"
  using all_fail_no_handle [of test_allocator fragmented_heap "sconst 0" scenarioC_pools 50]
    scenarioC_run
  by auto

subsection \<open>C7: no pool is attempted twice\<close>

text \<open>
  C7 as stated fails where the map binds two names to one allocator object: lines 52 to
  60 push the pointer once per entry, a failure removes one slot only, and the other
  slot is drawn later. Here pool 0 is attempted, then pool 1, then pool 0 again.
\<close>

theorem attempts_distinct_counterexample:
  "1 < length alias_pools \<and>
   Allocate test_allocator fragmented_heap (sconst 0) alias_pools 50 = Inr (None, alias_after) \<and>
   calls alias_after = [(0, None), (1, None), (0, None)] \<and>
   \<not> distinct (map fst (calls alias_after))"
  by (simp add: alias_run) (simp add: alias_pools_def alias_after_def)

text \<open>
  C7, amended: on a pool set of more than one pool, no pool is attempted more often than
  it occurs among the eligible entries of the map; so where every name of the map is
  bound to an allocator of its own, no pool is attempted twice and the attempted pools
  are distinct. With 15 eligible pools that all fail, exactly 10 pools are attempted.
\<close>

theorem attempts_distinct:
  assumes "1 < length allocators"
  shows "\<exists>r w'. Allocate ops h g allocators objectSize = Inr (r, w') \<and>
           mset (map fst (calls w')) \<subseteq># mset (eligible_pools ops h allocators objectSize) \<and>
           (distinct (map snd allocators) \<longrightarrow> distinct (map fst (calls w'))) \<and>
           (length (eligible_pools ops h allocators objectSize) = 15 \<and>
            (\<forall>c \<in> set (calls w'). snd c = None) \<longrightarrow> length (calls w') = 10)"
proof -
  let ?el = "eligible_pools ops h allocators objectSize"
  from assms have ne1: "length allocators \<noteq> 1" by simp
  from Allocate_multi_post [OF ne1, of ops h g objectSize]
  obtain r w' where run: "Allocate ops h g allocators objectSize = Inr (r, w')"
    and post: "loop_post \<lparr>heap = h, rng = g, calls = [], draws = []\<rparr>
             (min 10 (length ?el)) ?el r w'"
    by blast
  from post have sub: "mset (map fst (calls w')) \<subseteq># mset ?el"
    and res: "r = (if calls w' = [] then None else snd (last (calls w')))"
    and used: "r = None \<longrightarrow> length (calls w') = min 10 (length ?el)"
    unfolding loop_post_def by (elim exE conjE; simp)+
  have dist: "distinct (map fst (calls w'))" if "distinct (map snd allocators)"
  proof -
    from that have "distinct ?el" by (simp add: eligible_pools_def)
    with sub show ?thesis by (rule distinct_mset_subseteq)
  qed
  have ten: "length (calls w') = 10"
    if "length ?el = 15" and fail: "\<forall>c \<in> set (calls w'). snd c = None"
  proof -
    have "r = None"
    proof (cases "calls w' = []")
      case True
      with res show ?thesis by simp
    next
      case False
      then have "last (calls w') \<in> set (calls w')" by simp
      with fail have "snd (last (calls w')) = None" by blast
      with res False show ?thesis by simp
    qed
    with used that(1) show ?thesis by simp
  qed
  from run sub dist ten show ?thesis by blast
qed

text \<open>
  Scenario C: 15 eligible pools, every call fails, ten distinct pools are attempted.
\<close>

theorem attempts_distinct_witness:
  "1 < length scenarioC_pools \<and> distinct (map snd scenarioC_pools) \<and>
   length (eligible_pools test_allocator fragmented_heap scenarioC_pools 50) = 15 \<and>
   (\<exists>w'. Allocate test_allocator fragmented_heap (sconst 0) scenarioC_pools 50 = Inr (None, w') \<and>
          map snd (calls w') = replicate 10 None \<and>
          distinct (map fst (calls w')) \<and> length (calls w') = 10)"
proof -
  have 1: "1 < length scenarioC_pools" by (simp add: scenarioC_pools_def)
  have 2: "distinct (map snd scenarioC_pools)" by (simp add: scenarioC_pools_def)
  have 3: "length (eligible_pools test_allocator fragmented_heap scenarioC_pools 50) = 15"
    by (simp add: scenarioC_eligible) (simp add: scenarioC_pools_def)
  have 4: "replicate 10 (None :: size_t option) =
             [None, None, None, None, None, None, None, None, None, None]"
    by (simp add: numeral_eq_Suc)
  from attempts_distinct [OF 1, of test_allocator fragmented_heap "sconst 0" 50] scenarioC_run
  have "\<exists>w'. Allocate test_allocator fragmented_heap (sconst 0) scenarioC_pools 50 = Inr (None, w') \<and>
          map snd (calls w') = replicate 10 None \<and>
          distinct (map fst (calls w')) \<and> length (calls w') = 10"
    unfolding 4 by auto
  with 1 2 3 show ?thesis by blast
qed

subsection \<open>C8: absence of a result is the only failure\<close>

text \<open>
  C8: for every pool set and every requested size, zero included, \<open>Allocate\<close> returns:
  its result is a handle or no handle, never a fault of its own.
\<close>

theorem no_fault:
  "\<exists>r w'. Allocate ops h g allocators objectSize = Inr (r, w')"
  using Allocate_outcome [of ops h g allocators objectSize] by blast

subsection \<open>C9: the draws stay in bounds\<close>

text \<open>
  C9: the retry loop, entered as the code enters it (try counter 0 and a bound of
  \<open>min 10 (length eligible)\<close>), draws at most that many times, from a vector that has
  lost one element with every earlier draw, and every draw is made on a non-empty
  vector, so that \<^verbatim>\<open>eligible.size() - 1\<close> does not wrap, with an index inside the
  vector; the loop never reads out of range.
\<close>

theorem draws_in_bounds:
  "\<exists>r w' dnew.
     retry_loop ops objectSize (min 10 (length eligible)) 0 eligible w = Inr (r, w') \<and>
     draws w' = draws w @ dnew \<and>
     length dnew \<le> min 10 (length eligible) \<and>
     map fst dnew = map (\<lambda>j. length eligible - j) [0..<length dnew] \<and>
     (\<forall>d \<in> set dnew. 1 \<le> fst d \<and> snd d < fst d)"
proof -
  have "min 10 (length eligible) \<le> 0 + length eligible" by simp
  from retry_loop_post [OF this, of ops objectSize w]
  obtain r w' where run: "retry_loop ops objectSize (min 10 (length eligible)) 0 eligible w = Inr (r, w')"
    and post: "loop_post w (min 10 (length eligible) - 0) eligible r w'"
    by blast
  from post obtain dnew where "draws w' = draws w @ dnew"
    and "length dnew \<le> min 10 (length eligible)"
    and "map fst dnew = map (\<lambda>j. length eligible - j) [0..<length dnew]"
    and "\<forall>d \<in> set dnew. 1 \<le> fst d \<and> snd d < fst d"
    unfolding loop_post_def by (elim exE conjE) (rule that, simp_all)
  with run show ?thesis by blast
qed

text \<open>
  The loop of Scenario D draws three times, from vectors of sizes 3, 2 and 1.
\<close>

theorem draws_in_bounds_witness:
  "\<exists>w'. retry_loop test_allocator 50 (min 10 (length [0, 1, 2 :: pool_ref])) 0 [0, 1, 2]
           \<lparr>heap = scenarioD_heap, rng = scenarioD_rng, calls = [], draws = []\<rparr> = Inr (Some 50, w') \<and>
         draws w' = [] @ [(3, 0), (2, 1), (1, 0)]"
  using draws_in_bounds [of test_allocator 50 "[0, 1, 2]"
          "\<lparr>heap = scenarioD_heap, rng = scenarioD_rng, calls = [], draws = []\<rparr>"]
    scenarioD_loop
  by auto

subsection \<open>C10: the empty pool set\<close>

text \<open>
  C10: on the empty pool set \<open>Allocate\<close> returns no handle for every requested size,
  without any call to a pool and without a random draw.
\<close>

theorem empty_pool_set:
  "Allocate ops h g [] objectSize = Inr (None, \<lparr>heap = h, rng = g, calls = [], draws = []\<rparr>)"
  by (simp add: Allocate_def)

end
